theory Spec2Isabelle
  imports Main "HOL-Library.Word" "HOL-Library.Multiset"
begin

section \<open>JavaScript strings and numbers\<close>

text \<open>
  A JavaScript string is a sequence of UTF-16 code units. The literals of the source are
  ASCII, where a character and its code unit coincide; \<open>utf16\<close> writes them down.
  The numbers this development meets are integers (a counter, a year, a page number);
  they are modelled as \<open>int\<close>, which agrees with a JavaScript Number as long as
  the value stays below \<open>2 ^ 53\<close>.
\<close>

type_synonym js_string = "16 word list"

definition utf16 :: "string \<Rightarrow> js_string" where
  "utf16 s = map (\<lambda>c. of_nat (of_char c)) s"

text \<open>
  The code units that \<open>String.prototype.trim\<close> removes and that \<open>parseInt\<close>
  skips: ECMAScript's WhiteSpace and LineTerminator productions.
\<close>

definition isWhiteSpace :: "16 word \<Rightarrow> bool" where
  "isWhiteSpace c =
     (c = 0x0009 \<or> c = 0x000A \<or> c = 0x000B \<or> c = 0x000C \<or> c = 0x000D \<or> c = 0x0020 \<or>
      c = 0x00A0 \<or> c = 0x1680 \<or> (0x2000 \<le> c \<and> c \<le> 0x200A) \<or> c = 0x2028 \<or>
      c = 0x2029 \<or> c = 0x202F \<or> c = 0x205F \<or> c = 0x3000 \<or> c = 0xFEFF)"

definition isDigit :: "16 word \<Rightarrow> bool" where
  "isDigit c = (0x30 \<le> c \<and> c \<le> 0x39)"

text \<open>\<open>Number.prototype.toString\<close> on an integer: its decimal digits, after a minus sign
  when it is negative.\<close>

definition digitUnit :: "nat \<Rightarrow> 16 word" where
  "digitUnit d = of_nat (48 + d)"

fun digits :: "nat \<Rightarrow> js_string" where
  "digits n =
     (if n < 10 then [digitUnit n]
      else digits (n div 10) @ [digitUnit (n mod 10)])"

declare digits.simps [simp del]

definition number_toString :: "int \<Rightarrow> js_string" where
  "number_toString v = (if v < 0 then 0x2D # digits (nat (- v)) else digits (nat v))"

text \<open>\<open>String.prototype.padStart(maxLength, fillString)\<close>, as ECMAScript's StringPad
  defines it: the filler is repeated and cut to the missing length, and a string that is
  long enough already is returned as it is.\<close>

definition padStart :: "js_string \<Rightarrow> nat \<Rightarrow> js_string \<Rightarrow> js_string" where
  "padStart S maxLength fillString =
     (let stringLength = length S in
      if maxLength \<le> stringLength then S
      else if fillString = [] then S
      else
        let fillLen = maxLength - stringLength;
            truncatedStringFiller = take fillLen (concat (replicate fillLen fillString))
        in truncatedStringFiller @ S)"

section \<open>The counter model\<close>

text \<open>
  \<open>ICounter\<close> is the document of the \<open>counters\<close> collection: its \<open>_id\<close> (the
  counter's name) and \<open>seq\<close>. The collection maps an \<open>_id\<close> to its document.
\<close>

record ICounter =
  counter_id :: string
  seq :: int

type_synonym counters = "string \<Rightarrow> ICounter option"

text \<open>\<open>counterSchema\<close> gives \<open>seq\<close> the default 1000: the schema's paths that have a
  default, each with it.\<close>

definition counterSchema_defaults :: "(string \<times> int) list" where
  "counterSchema_defaults = [(''seq'', 1000)]"

text \<open>
  How the store executes \<open>findOneAndUpdate(filter, {$inc: {path: amount}}, options)\<close>.
  Mongoose and MongoDB are libraries outside the repository: the four points below are
  what this development assumes of them, and every statement about a counter that does
  not exist yet rests on the second and the third.
  \<^item> MongoDB's \<open>$inc\<close> adds the amount to the field, and sets a field that is missing
    to the amount.
  \<^item> On an upsert that matches nothing, the inserted document is built from the filter's
    equality conditions and the \<open>$setOnInsert\<close> entries, and then the operators of the
    update are applied to it.
  \<^item> Mongoose turns the schema's defaults into \<open>$setOnInsert\<close> entries of an upsert,
    but only for the paths that neither the filter nor an operator of the update names
    (its \<open>setDefaultsOnInsert\<close> helper skips every modified path; MongoDB refuses an
    update that names one path in two operators).
  \<^item> With \<open>new: true\<close> the document after the update is returned, otherwise the one
    before it (none when the upsert inserted it).
\<close>

definition inc_field :: "int option \<Rightarrow> int \<Rightarrow> int" where
  "inc_field field amount = (case field of None \<Rightarrow> amount | Some v \<Rightarrow> v + amount)"

definition setDefaultsOnInsert ::
  "string list \<Rightarrow> string list \<Rightarrow> (string \<times> int) list \<Rightarrow> (string \<times> int) list" where
  "setDefaultsOnInsert filter_paths update_paths defaults =
     filter (\<lambda>(path, d). path \<notin> set filter_paths \<and> path \<notin> set update_paths) defaults"

record query_options =
  opt_new :: bool
  opt_upsert :: bool

definition findOneAndUpdate ::
  "string \<Rightarrow> int \<Rightarrow> query_options \<Rightarrow> counters \<Rightarrow> ICounter option \<times> counters" where
  "findOneAndUpdate key amount opts coll =
     (case coll key of
        Some doc \<Rightarrow>
          (let doc' = doc\<lparr>seq := inc_field (Some (seq doc)) amount\<rparr>
           in (Some (if opt_new opts then doc' else doc), coll(key \<mapsto> doc')))
      | None \<Rightarrow>
          if opt_upsert opts then
            (let onInsert = setDefaultsOnInsert [''_id''] [''seq''] counterSchema_defaults;
                 doc' = \<lparr>counter_id = key, seq = inc_field (map_of onInsert ''seq'') amount\<rparr>
             in (if opt_new opts then Some doc' else None, coll(key \<mapsto> doc')))
          else (None, coll))"

text \<open>
  The store is reached over the network, so the awaited promise has three outcomes: the
  update is applied and its result delivered; the store is not reached or refuses the
  update, and nothing changes; the update is applied and the reply is lost. The last two
  reject the promise.
\<close>

datatype store_reply = Acknowledged | Unreachable | ReplyLost

datatype error = StorageUnavailable | TypeError

definition await_findOneAndUpdate ::
  "store_reply \<Rightarrow> string \<Rightarrow> int \<Rightarrow> query_options \<Rightarrow> counters
     \<Rightarrow> (error + ICounter option) \<times> counters" where
  "await_findOneAndUpdate reply key amount opts coll =
     (case reply of
        Acknowledged \<Rightarrow>
          (let (doc, coll') = findOneAndUpdate key amount opts coll in (Inr doc, coll'))
      | Unreachable \<Rightarrow> (Inl StorageUnavailable, coll)
      | ReplyLost \<Rightarrow> (Inl StorageUnavailable, snd (findOneAndUpdate key amount opts coll)))"

text \<open>
  Lines 61 and 62 of the source: the counter's \<open>seq\<close> padded to six digits, behind the
  prefix and the year.
\<close>

definition formatBookingNumber :: "int \<Rightarrow> ICounter \<Rightarrow> js_string" where
  "formatBookingNumber year counter =
     (let sequenceNumber = padStart (number_toString (seq counter)) 6 (utf16 ''0'')
      in utf16 ''JY-'' @ number_toString year @ utf16 ''-'' @ sequenceNumber)"

text \<open>
  \<open>getNextBookingNumber\<close>. The year is what \<open>new Date().getFullYear()\<close> returns at the
  call, the reply is the store's. The source has no \<open>catch\<close>: a rejection of the awaited
  promise is the function's own. Reading \<open>seq\<close> of a missing document would throw a
  TypeError.
\<close>

definition getNextBookingNumber ::
  "int \<Rightarrow> store_reply \<Rightarrow> counters \<Rightarrow> (error + js_string) \<times> counters" where
  "getNextBookingNumber year reply coll =
     (case await_findOneAndUpdate reply ''bookingNumber'' 1
             \<lparr>opt_new = True, opt_upsert = True\<rparr> coll of
        (Inl e, coll') \<Rightarrow> (Inl e, coll')
      | (Inr None, coll') \<Rightarrow> (Inl TypeError, coll')
      | (Inr (Some counter), coll') \<Rightarrow> (Inr (formatBookingNumber year counter), coll'))"

text \<open>A sequence of calls, one after the other, each with the year and the store's reply at
  its time.\<close>

fun allocations :: "(int \<times> store_reply) list \<Rightarrow> counters \<Rightarrow> (error + js_string) list \<times> counters" where
  "allocations [] coll = ([], coll)"
| "allocations ((year, reply) # calls) coll =
     (let (r, coll') = getNextBookingNumber year reply coll;
          (rs, coll'') = allocations calls coll'
      in (r # rs, coll''))"

subsection \<open>Reading a booking number\<close>

text \<open>
  The numeric sequence component of a booking number is the text behind its last hyphen,
  read as a decimal number. These functions are not in the source: they are how a reader
  of the identifier recovers the counter's value, and the properties below are stated
  with them.
\<close>

definition decimal_value :: "js_string \<Rightarrow> nat" where
  "decimal_value s = foldl (\<lambda>a c. 10 * a + (unat c - 48)) 0 s"

definition sequence_text :: "js_string \<Rightarrow> js_string" where
  "sequence_text s = rev (takeWhile (\<lambda>c. c \<noteq> 0x2D) (rev s))"

definition sequence_value :: "js_string \<Rightarrow> int" where
  "sequence_value s = int (decimal_value (sequence_text s))"

definition successes :: "(error + js_string) list \<Rightarrow> js_string list" where
  "successes rs = concat (map (\<lambda>r. case r of Inl e \<Rightarrow> [] | Inr s \<Rightarrow> [s]) rs)"

text \<open>The value the counter stands at: a counter that does not exist yet counts from 0.\<close>

definition current :: "counters \<Rightarrow> int" where
  "current coll = (case coll ''bookingNumber'' of None \<Rightarrow> 0 | Some c \<Rightarrow> seq c)"

text \<open>The document the collection holds once one more increment has been applied.\<close>

definition incremented :: "counters \<Rightarrow> ICounter" where
  "incremented coll =
     (case coll ''bookingNumber'' of
        None \<Rightarrow> \<lparr>counter_id = ''bookingNumber'', seq = 1\<rparr>
      | Some d \<Rightarrow> d\<lparr>seq := seq d + 1\<rparr>)"

section \<open>Request validation\<close>

subsection \<open>sanitizeString\<close>

text \<open>
  \<open>input.replace(/c/g, r)\<close> where the pattern is one literal character and the
  replacement holds no \<open>$\<close>: every occurrence of the code unit becomes \<open>r\<close>, from
  left to right, and the text put in is not looked at again.
\<close>

definition replace_all :: "16 word \<Rightarrow> js_string \<Rightarrow> js_string \<Rightarrow> js_string" where
  "replace_all c replacement input =
     concat (map (\<lambda>x. if x = c then replacement else [x]) input)"

definition trim :: "js_string \<Rightarrow> js_string" where
  "trim s = rev (dropWhile isWhiteSpace (rev (dropWhile isWhiteSpace s)))"

text \<open>The five replacements in the order of the source (\<open><\<close>, \<open>>\<close>, the double
  quote, the single quote, the slash), then \<open>trim\<close>.\<close>

definition sanitizeString :: "js_string \<Rightarrow> js_string" where
  "sanitizeString input =
     trim
       (replace_all 0x2F (utf16 ''&#x2F;'')
         (replace_all 0x27 (utf16 ''&#x27;'')
           (replace_all 0x22 (utf16 ''&quot;'')
             (replace_all 0x3E (utf16 ''&gt;'')
               (replace_all 0x3C (utf16 ''&lt;'') input)))))"

text \<open>The replacements alone, and the five characters they remove.\<close>

definition escapeHtml :: "js_string \<Rightarrow> js_string" where
  "escapeHtml input =
     replace_all 0x2F (utf16 ''&#x2F;'')
       (replace_all 0x27 (utf16 ''&#x27;'')
         (replace_all 0x22 (utf16 ''&quot;'')
           (replace_all 0x3E (utf16 ''&gt;'')
             (replace_all 0x3C (utf16 ''&lt;'') input))))"

definition specials :: "16 word set" where
  "specials = {0x3C, 0x3E, 0x22, 0x27, 0x2F}"

subsection \<open>paginationQuerySchema\<close>

text \<open>
  \<open>parseInt(string, 10)\<close>: leading white space is skipped, one sign is read, and the
  longest run of decimal digits that follows is the number; with no digit the result is
  NaN, here \<open>None\<close>.
\<close>

definition parseInt :: "js_string \<Rightarrow> int option" where
  "parseInt string =
     (let S = dropWhile isWhiteSpace string;
          sign = (if S \<noteq> [] \<and> hd S = 0x2D then - 1 else 1);
          S' = (if S \<noteq> [] \<and> (hd S = 0x2B \<or> hd S = 0x2D) then tl S else S);
          Z = takeWhile isDigit S'
      in if Z = [] then None else Some (sign * int (decimal_value Z)))"

text \<open>
  A value of the request's query object is a string, or an array or an object when the
  query string repeats or nests the key; a key that is absent is \<open>None\<close>.
\<close>

datatype query_value = QString js_string | QOther

record pagination_input =
  page_input :: "query_value option"
  limit_input :: "query_value option"

record PaginationQuery =
  page :: int
  limit :: int

datatype ZodIssue = invalid_type string

text \<open>\<open>z.string().optional()\<close> accepts a string and an absent value.\<close>

definition zod_string_optional :: "string \<Rightarrow> query_value option \<Rightarrow> ZodIssue + js_string option" where
  "zod_string_optional path v =
     (case v of
        None \<Rightarrow> Inr None
      | Some (QString s) \<Rightarrow> Inr (Some s)
      | Some QOther \<Rightarrow> Inl (invalid_type path))"

text \<open>\<open>val || d\<close>: \<open>undefined\<close> and the empty string are falsy.\<close>

definition or_else :: "js_string option \<Rightarrow> js_string \<Rightarrow> js_string" where
  "or_else val d = (case val of None \<Rightarrow> d | Some s \<Rightarrow> if s = [] then d else s)"

definition page_transform :: "js_string option \<Rightarrow> int" where
  "page_transform val =
     (case parseInt (or_else val (utf16 ''1'')) of
        None \<Rightarrow> 1
      | Some parsed \<Rightarrow> if parsed < 1 then 1 else parsed)"

definition limit_transform :: "js_string option \<Rightarrow> int" where
  "limit_transform val =
     (case parseInt (or_else val (utf16 ''10'')) of
        None \<Rightarrow> 10
      | Some parsed \<Rightarrow> if parsed < 1 then 10 else min parsed 100)"

definition paginationQuerySchema :: "pagination_input \<Rightarrow> ZodIssue list + PaginationQuery" where
  "paginationQuerySchema q =
     (case (zod_string_optional ''page'' (page_input q),
            zod_string_optional ''limit'' (limit_input q)) of
        (Inr p, Inr l) \<Rightarrow> Inr \<lparr>page = page_transform p, limit = limit_transform l\<rparr>
      | (Inl e, Inr l) \<Rightarrow> Inl [e]
      | (Inr p, Inl e) \<Rightarrow> Inl [e]
      | (Inl e, Inl e') \<Rightarrow> Inl [e, e'])"

section \<open>Concurrent calls\<close>

text \<open>
  \<open>getNextBookingNumber\<close> has one \<open>await\<close>, so a call runs in three steps, and
  between the steps of one call the steps of other calls may run. First the call reads the
  year and sends the update. Then the store applies the update, in one atomic step, and
  the reply is on its way. Last the call resumes with the reply and returns the booking
  number. An event names the call that takes its next step and the year the clock shows
  at that moment; a schedule is a list of events.
\<close>

datatype call_state =
    NotStarted
  | Awaiting int
  | Replied int ICounter
  | Returned js_string
  | Failed error

record system =
  collection :: counters
  call_states :: "call_state list"

definition call_step :: "nat \<times> int \<Rightarrow> system \<Rightarrow> system" where
  "call_step ev sys =
     (let (i, clock) = ev in
      if length (call_states sys) \<le> i then sys
      else
        case call_states sys ! i of
          NotStarted \<Rightarrow> sys\<lparr>call_states := (call_states sys)[i := Awaiting clock]\<rparr>
        | Awaiting year \<Rightarrow>
            (let (doc, coll') =
                   findOneAndUpdate ''bookingNumber'' 1 \<lparr>opt_new = True, opt_upsert = True\<rparr>
                     (collection sys)
             in case doc of
                  None \<Rightarrow> sys\<lparr>collection := coll', call_states := (call_states sys)[i := Failed TypeError]\<rparr>
                | Some counter \<Rightarrow>
                    sys\<lparr>collection := coll', call_states := (call_states sys)[i := Replied year counter]\<rparr>)
        | Replied year counter \<Rightarrow>
            sys\<lparr>call_states := (call_states sys)[i := Returned (formatBookingNumber year counter)]\<rparr>
        | Returned s \<Rightarrow> sys
        | Failed e \<Rightarrow> sys)"

fun run :: "(nat \<times> int) list \<Rightarrow> system \<Rightarrow> system" where
  "run [] sys = sys"
| "run (ev # schedule) sys = run schedule (call_step ev sys)"

definition initial :: "counters \<Rightarrow> nat \<Rightarrow> system" where
  "initial coll N = \<lparr>collection = coll, call_states = replicate N NotStarted\<rparr>"

text \<open>The sequence value a call holds: the \<open>seq\<close> of the reply it has not yet read, or
  the sequence component of the booking number it returned.\<close>

definition allocated :: "call_state \<Rightarrow> int list" where
  "allocated st =
     (case st of
        Replied year counter \<Rightarrow> [seq counter]
      | Returned s \<Rightarrow> [sequence_value s]
      | _ \<Rightarrow> [])"

definition allocated_values :: "call_state list \<Rightarrow> int list" where
  "allocated_values cs = concat (map allocated cs)"

text \<open>How far a call has come: the number of steps it has taken.\<close>

definition progress :: "call_state \<Rightarrow> nat" where
  "progress st =
     (case st of
        NotStarted \<Rightarrow> 0
      | Awaiting year \<Rightarrow> 1
      | Replied year counter \<Rightarrow> 2
      | Returned s \<Rightarrow> 3
      | Failed e \<Rightarrow> 3)"

text \<open>
  What holds in every state a schedule reaches from a collection whose counter stands at
  \<open>b\<close>: the counter has advanced by the number of values handed out, and these values
  are the numbers after \<open>b\<close> up to the counter, each once.
\<close>

definition invariant :: "int \<Rightarrow> system \<Rightarrow> bool" where
  "invariant b sys \<longleftrightarrow>
     0 \<le> b \<and>
     current (collection sys) = b + int (length (allocated_values (call_states sys))) \<and>
     mset (allocated_values (call_states sys)) = mset [b + 1..current (collection sys)]"

text \<open>The number of steps a schedule gives to call \<open>i\<close>, and the states in which no
  call has failed.\<close>

definition steps_of :: "nat \<Rightarrow> (nat \<times> int) list \<Rightarrow> nat" where
  "steps_of i schedule = length (filter (\<lambda>ev. fst ev = i) schedule)"

definition no_failure :: "system \<Rightarrow> bool" where
  "no_failure sys =
     list_all (\<lambda>st. case st of Failed e \<Rightarrow> False | _ \<Rightarrow> True) (call_states sys)"

section \<open>Properties of the booking number\<close>

lemma unat_digit: "d < 10 \<Longrightarrow> unat (digitUnit d) = 48 + d"
proof -
  assume d: "d < 10"
  have "unat (of_nat (48 + d) :: 16 word) = (48 + d) mod 2 ^ LENGTH(16)"
    by (rule unat_of_nat)
  with d show ?thesis by (simp add: digitUnit_def)
qed

lemma digit_not_hyphen: "d < 10 \<Longrightarrow> digitUnit d \<noteq> 0x2D"
proof
  assume d: "d < 10" and e: "digitUnit d = 0x2D"
  have "unat (digitUnit d) = 48 + d" using d by (rule unat_digit)
  with e show False by simp
qed

lemma digits_no_hyphen: "0x2D \<notin> set (digits n)"
proof (induction n rule: digits.induct)
  case (1 n)
  show ?case
  proof (cases "n < 10")
    case True
    then show ?thesis using digit_not_hyphen [of n] by (simp add: digits.simps [of n])
  next
    case False
    have "n mod 10 < 10" by simp
    then have "digitUnit (n mod 10) \<noteq> 0x2D" by (rule digit_not_hyphen)
    with False 1 show ?thesis by (simp add: digits.simps [of n])
  qed
qed


lemma decimal_value_append:
  "decimal_value (s @ [c]) = 10 * decimal_value s + (unat c - 48)"
  by (simp add: decimal_value_def)

lemma decimal_value_digits: "decimal_value (digits n) = n"
proof (induction n rule: digits.induct)
  case (1 n)
  show ?case
  proof (cases "n < 10")
    case True
    then show ?thesis by (simp add: digits.simps [of n] decimal_value_def unat_digit)
  next
    case False
    have "n mod 10 < 10" by simp
    then have "unat (digitUnit (n mod 10)) = 48 + n mod 10" by (rule unat_digit)
    with False 1 show ?thesis
      by (simp add: digits.simps [of n] decimal_value_append)
  qed
qed

lemma foldl_zeros:
  "foldl (\<lambda>a c. 10 * a + (unat c - 48)) 0 (replicate k (0x30 :: 16 word)) = (0::nat)"
  by (induction k) simp_all

lemma decimal_value_zeros: "decimal_value (replicate k 0x30 @ s) = decimal_value s"
  by (simp add: decimal_value_def foldl_zeros)


lemma padStart_zero:
  "padStart s n (utf16 ''0'') = replicate (n - length s) 0x30 @ s"
  by (simp add: padStart_def utf16_def Let_def)


lemma findOneAndUpdate_upsert_new:
  "findOneAndUpdate ''bookingNumber'' 1 \<lparr>opt_new = True, opt_upsert = True\<rparr> coll =
     (Some (incremented coll), coll(''bookingNumber'' \<mapsto> incremented coll))"
  by (simp add: findOneAndUpdate_def incremented_def inc_field_def setDefaultsOnInsert_def
      counterSchema_defaults_def Let_def split: option.split)

lemma getNextBookingNumber_eq:
  "getNextBookingNumber year reply coll =
     (case reply of
        Acknowledged \<Rightarrow>
          (Inr (formatBookingNumber year (incremented coll)),
           coll(''bookingNumber'' \<mapsto> incremented coll))
      | Unreachable \<Rightarrow> (Inl StorageUnavailable, coll)
      | ReplyLost \<Rightarrow> (Inl StorageUnavailable, coll(''bookingNumber'' \<mapsto> incremented coll)))"
  by (simp add: getNextBookingNumber_def await_findOneAndUpdate_def
      findOneAndUpdate_upsert_new split: store_reply.split)

lemma seq_incremented: "seq (incremented coll) = current coll + 1"
  by (simp add: incremented_def current_def split: option.split)

lemma current_update: "current (coll(''bookingNumber'' \<mapsto> c)) = seq c"
  by (simp add: current_def)

lemma number_toString_nonneg: "0 \<le> v \<Longrightarrow> number_toString v = digits (nat v)"
  by (simp add: number_toString_def)

lemma formatBookingNumber_eq:
  "formatBookingNumber year c =
     utf16 ''JY-'' @ number_toString year @ [0x2D] @
     replicate (6 - length (number_toString (seq c))) 0x30 @ number_toString (seq c)"
  by (simp add: formatBookingNumber_def padStart_zero) (simp add: utf16_def)

lemma sequence_text_after_hyphen:
  "0x2D \<notin> set t \<Longrightarrow> sequence_text (a @ [0x2D] @ t) = t"
proof -
  assume "0x2D \<notin> set t"
  then have "takeWhile (\<lambda>c. c \<noteq> 0x2D) (rev t @ 0x2D # rev a) = rev t"
    by (subst takeWhile_append2) auto
  then show ?thesis by (simp add: sequence_text_def)
qed

lemma zero_not_hyphen: "(0x30 :: 16 word) \<noteq> 0x2D"
  by simp

lemma sequence_text_format:
  assumes "0 \<le> seq c"
  shows "sequence_text (formatBookingNumber year c) =
           replicate (6 - length (digits (nat (seq c)))) 0x30 @ digits (nat (seq c))"
proof -
  let ?t = "replicate (6 - length (digits (nat (seq c)))) (0x30 :: 16 word) @ digits (nat (seq c))"
  have "0x2D \<notin> set ?t" using digits_no_hyphen [of "nat (seq c)"] by auto
  then have "sequence_text ((utf16 ''JY-'' @ number_toString year) @ [0x2D] @ ?t) = ?t"
    by (rule sequence_text_after_hyphen)
  then show ?thesis using assms by (simp add: formatBookingNumber_eq number_toString_nonneg)
qed

lemma sequence_value_format:
  "0 \<le> seq c \<Longrightarrow> sequence_value (formatBookingNumber year c) = seq c"
  by (simp add: sequence_value_def sequence_text_format decimal_value_zeros decimal_value_digits)


lemma allocations_Cons:
  "allocations ((year, reply) # calls) coll =
     (fst (getNextBookingNumber year reply coll) #
        fst (allocations calls (snd (getNextBookingNumber year reply coll))),
      snd (allocations calls (snd (getNextBookingNumber year reply coll))))"
  by (simp split: prod.split)

declare allocations.simps(2) [simp del]

lemma snd_getNextBookingNumber:
  "snd (getNextBookingNumber year reply coll) =
     (if reply = Unreachable then coll else coll(''bookingNumber'' \<mapsto> incremented coll))"
  by (simp add: getNextBookingNumber_eq split: store_reply.split)

lemma fst_getNextBookingNumber:
  "fst (getNextBookingNumber year reply coll) =
     (if reply = Acknowledged then Inr (formatBookingNumber year (incremented coll))
      else Inl StorageUnavailable)"
  by (simp add: getNextBookingNumber_eq split: store_reply.split)



lemma allocations_keeps_document:
  "coll ''bookingNumber'' = Some c \<Longrightarrow>
     \<exists>n. snd (allocations calls coll) ''bookingNumber'' = Some (c\<lparr>seq := n\<rparr>) \<and> seq c \<le> n"
proof (induction calls arbitrary: coll c)
  case Nil
  then have "coll ''bookingNumber'' = Some (c\<lparr>seq := seq c\<rparr>)" by simp
  then show ?case by (auto intro: exI [of _ "seq c"])
next
  case (Cons call calls)
  obtain year reply where call: "call = (year, reply)" by (cases call)
  define c1 where "c1 = coll(''bookingNumber'' \<mapsto> incremented coll)"
  show ?case
  proof (cases "reply = Unreachable")
    case True
    have "snd (getNextBookingNumber year reply coll) = coll"
      using True by (simp add: snd_getNextBookingNumber)
    with Cons.IH [of coll c, OF Cons.prems] show ?thesis
      by (simp add: call allocations_Cons)
  next
    case False
    have s: "snd (getNextBookingNumber year reply coll) = c1"
      using False by (simp add: snd_getNextBookingNumber c1_def)
    have "incremented coll = c\<lparr>seq := seq c + 1\<rparr>"
      using Cons.prems by (simp add: incremented_def)
    then have "c1 ''bookingNumber'' = Some (c\<lparr>seq := seq c + 1\<rparr>)" by (simp add: c1_def)
    from Cons.IH [of c1 "c\<lparr>seq := seq c + 1\<rparr>", OF this] obtain n where
      "snd (allocations calls c1) ''bookingNumber'' = Some (c\<lparr>seq := n\<rparr>)" "seq c + 1 \<le> n"
      by auto
    then show ?thesis
      by (auto simp: call allocations_Cons s intro!: exI [of _ n])
  qed
qed

lemma allocations_frame:
  "k \<noteq> ''bookingNumber'' \<Longrightarrow> snd (allocations calls coll) k = coll k"
proof (induction calls arbitrary: coll)
  case Nil
  then show ?case by simp
next
  case (Cons call calls)
  obtain year reply where call: "call = (year, reply)" by (cases call)
  from Cons show ?case
    by (simp add: call allocations_Cons snd_getNextBookingNumber)
qed


subsection \<open>Evaluation at concrete inputs\<close>

lemma replicate_unfold_numeral:
  "replicate (numeral k) x = x # replicate (numeral k - 1) x"
  by (simp add: numeral_eq_Suc)

lemmas js_eval = utf16_def digits.simps digitUnit_def number_toString_def padStart_def
  replicate_unfold_numeral

lemmas counter_eval = getNextBookingNumber_def await_findOneAndUpdate_def findOneAndUpdate_def
  inc_field_def setDefaultsOnInsert_def counterSchema_defaults_def formatBookingNumber_def
  sequence_value_def sequence_text_def decimal_value_def current_def successes_def
  allocations_Cons Let_def

text \<open>
  Claim C1. The claim: the first call on a collection that has no \<open>bookingNumber\<close>
  document creates the document with the starting value 1000 and returns a booking number
  whose sequence component is 1001. With the library behaviour assumed in the counter
  model, the schema's default never reaches the document: the update names \<open>seq\<close>
  itself, so the upsert inserts \<open>seq = 1\<close>, and the call in 2025 returns
  \<open>JY-2025-000001\<close>, whose sequence component is 1.
\<close>

theorem first_call_on_missing_counter:
  "fst (getNextBookingNumber 2025 Acknowledged Map.empty) = Inr (utf16 ''JY-2025-000001'') \<and>
   map_option seq (snd (getNextBookingNumber 2025 Acknowledged Map.empty) ''bookingNumber'') = Some 1 \<and>
   sequence_value (utf16 ''JY-2025-000001'') = 1"
  by (simp add: js_eval counter_eval)

text \<open>The same for every year and every collection without the document.\<close>

lemma missing_counter_starts_at_one:
  assumes "coll ''bookingNumber'' = None"
  shows "fst (getNextBookingNumber year Acknowledged coll) =
           Inr (utf16 ''JY-'' @ number_toString year @ utf16 ''-000001'')"
    and "snd (getNextBookingNumber year Acknowledged coll) ''bookingNumber'' =
           Some \<lparr>counter_id = ''bookingNumber'', seq = 1\<rparr>"
proof -
  have i: "incremented coll = \<lparr>counter_id = ''bookingNumber'', seq = 1\<rparr>"
    using assms by (simp add: incremented_def)
  have d: "number_toString 1 = utf16 ''1''" by (simp add: js_eval)
  show "fst (getNextBookingNumber year Acknowledged coll) =
           Inr (utf16 ''JY-'' @ number_toString year @ utf16 ''-000001'')"
    by (simp add: fst_getNextBookingNumber i formatBookingNumber_eq d) (simp add: js_eval)
  show "snd (getNextBookingNumber year Acknowledged coll) ''bookingNumber'' =
           Some \<lparr>counter_id = ''bookingNumber'', seq = 1\<rparr>"
    by (simp add: snd_getNextBookingNumber i)
qed












text \<open>
  Claim C8. The counter's document is never deleted: the first allocation creates it, and
  once it is there every sequence of calls leaves it there, equal to what it was but for
  \<open>seq\<close>.
\<close>

theorem counter_record_is_never_deleted:
  "(coll ''bookingNumber'' = None \<and> fst (getNextBookingNumber year reply coll) = Inr s \<longrightarrow>
      (\<exists>c. snd (getNextBookingNumber year reply coll) ''bookingNumber'' = Some c \<and>
           counter_id c = ''bookingNumber'')) \<and>
   (\<forall>c. coll ''bookingNumber'' = Some c \<longrightarrow>
      (\<exists>n. snd (allocations calls coll) ''bookingNumber'' = Some (c\<lparr>seq := n\<rparr>)))"
proof (intro conjI allI impI)
  assume a: "coll ''bookingNumber'' = None \<and> fst (getNextBookingNumber year reply coll) = Inr s"
  then have "reply = Acknowledged" by (simp add: fst_getNextBookingNumber split: if_splits)
  with a show "\<exists>c. snd (getNextBookingNumber year reply coll) ''bookingNumber'' = Some c \<and>
           counter_id c = ''bookingNumber''"
    by (simp add: snd_getNextBookingNumber incremented_def)
next
  fix c
  assume "coll ''bookingNumber'' = Some c"
  from allocations_keeps_document [where coll = coll and c = c and calls = calls, OF this]
  show "\<exists>n. snd (allocations calls coll) ''bookingNumber'' = Some (c\<lparr>seq := n\<rparr>)"
    by blast
qed

theorem counter_record_is_never_deleted_witness:
  "(Map.empty :: counters) ''bookingNumber'' = None \<and>
   fst (getNextBookingNumber 2025 Acknowledged Map.empty) = Inr (utf16 ''JY-2025-000001'') \<and>
   (\<exists>c. snd (getNextBookingNumber 2025 Acknowledged Map.empty) ''bookingNumber'' = Some c \<and>
        counter_id c = ''bookingNumber'') \<and>
   [''bookingNumber'' \<mapsto> \<lparr>counter_id = ''bookingNumber'', seq = 1000\<rparr>] ''bookingNumber'' =
     Some \<lparr>counter_id = ''bookingNumber'', seq = 1000\<rparr> \<and>
   (\<exists>n. snd (allocations [(2025, Acknowledged), (2025, Unreachable), (2026, ReplyLost)]
            [''bookingNumber'' \<mapsto> \<lparr>counter_id = ''bookingNumber'', seq = 1000\<rparr>]) ''bookingNumber'' =
        Some (\<lparr>counter_id = ''bookingNumber'', seq = 1000\<rparr>\<lparr>seq := n\<rparr>))"
proof -
  let ?coll = "[''bookingNumber'' \<mapsto> \<lparr>counter_id = ''bookingNumber'', seq = 1000\<rparr>]"
  have a: "(Map.empty :: counters) ''bookingNumber'' = None" by simp
  have b: "fst (getNextBookingNumber 2025 Acknowledged Map.empty) = Inr (utf16 ''JY-2025-000001'')"
    by (simp add: js_eval counter_eval)
  have c: "?coll ''bookingNumber'' = Some \<lparr>counter_id = ''bookingNumber'', seq = 1000\<rparr>"
    by simp
  from counter_record_is_never_deleted
    [of Map.empty 2025 Acknowledged "utf16 ''JY-2025-000001''"] a b
  have d: "\<exists>c. snd (getNextBookingNumber 2025 Acknowledged Map.empty) ''bookingNumber'' = Some c \<and>
        counter_id c = ''bookingNumber''"
    by blast
  from counter_record_is_never_deleted
    [of ?coll _ _ _ "[(2025, Acknowledged), (2025, Unreachable), (2026, ReplyLost)]"] c
  have e: "\<exists>n. snd (allocations [(2025, Acknowledged), (2025, Unreachable), (2026, ReplyLost)]
            ?coll) ''bookingNumber'' = Some (\<lparr>counter_id = ''bookingNumber'', seq = 1000\<rparr>\<lparr>seq := n\<rparr>)"
    by blast
  from a b c d e show ?thesis by (intro conjI)
qed

section \<open>Properties of concurrent calls\<close>

lemma length_call_step: "length (call_states (call_step ev sys)) = length (call_states sys)"
  by (cases ev)
    (simp add: call_step_def findOneAndUpdate_upsert_new split: call_state.split)

lemma length_run: "length (call_states (run schedule sys)) = length (call_states sys)"
  by (induction schedule arbitrary: sys) (simp_all add: length_call_step)

lemma allocated_values_update:
  "i < length cs \<Longrightarrow>
     mset (allocated_values (cs[i := st])) + mset (allocated (cs ! i)) =
       mset (allocated_values cs) + mset (allocated st)"
proof (induction cs arbitrary: i)
  case Nil
  then show ?case by simp
next
  case (Cons a cs)
  show ?case
  proof (cases i)
    case 0
    then show ?thesis by (simp add: allocated_values_def)
  next
    case (Suc j)
    with Cons.prems have "j < length cs" by simp
    from Cons.IH [OF this] show ?thesis
      by (simp add: Suc allocated_values_def ac_simps)
  qed
qed

lemma mset_upto_snoc: "b \<le> c \<Longrightarrow> mset [b + 1..c + 1] = add_mset (c + 1) (mset [b + 1..c])"
proof -
  assume "b \<le> c"
  then have "[b + 1..c + 1] = [b + 1..c] @ [c + 1]"
    using upto_rec2 [of "b + 1" "c + 1"] by simp
  then show ?thesis by simp
qed

lemma invariant_initial: "0 \<le> current coll \<Longrightarrow> invariant (current coll) (initial coll N)"
  by (simp add: invariant_def initial_def allocated_values_def allocated_def)

lemma invariant_call_step:
  assumes "invariant b sys"
  shows "invariant b (call_step ev sys)"
proof -
  obtain i clock where ev: "ev = (i, clock)" by (cases ev)
  let ?cs = "call_states sys"
  from assms have b: "0 \<le> b"
    and cur: "current (collection sys) = b + int (length (allocated_values ?cs))"
    and ms: "mset (allocated_values ?cs) = mset [b + 1..current (collection sys)]"
    by (simp_all add: invariant_def)
  show ?thesis
  proof (cases "length ?cs \<le> i")
    case True
    with assms show ?thesis by (simp add: call_step_def ev)
  next
    case False
    then have i: "i < length ?cs" by simp
    note upd = allocated_values_update [OF i]
    show ?thesis
    proof (cases "?cs ! i")
      case NotStarted
      have "mset (allocated_values (?cs[i := Awaiting clock])) = mset (allocated_values ?cs)"
        using upd [of "Awaiting clock"] by (simp add: NotStarted allocated_def)
      moreover from this have "length (allocated_values (?cs[i := Awaiting clock])) =
          length (allocated_values ?cs)" by (metis size_mset)
      ultimately show ?thesis
        using b cur ms i by (simp add: call_step_def ev NotStarted invariant_def)
    next
      case (Awaiting year)
      let ?c = "incremented (collection sys)"
      have m: "mset (allocated_values (?cs[i := Replied year ?c])) =
          add_mset (seq ?c) (mset (allocated_values ?cs))"
        using upd [of "Replied year ?c"] by (simp add: Awaiting allocated_def)
      then have l: "length (allocated_values (?cs[i := Replied year ?c])) =
          Suc (length (allocated_values ?cs))" by (metis size_mset size_add_mset)
      have s: "seq ?c = current (collection sys) + 1" by (rule seq_incremented)
      have "b \<le> current (collection sys)" using cur by simp
      then have "mset [b + 1..current (collection sys) + 1] =
          add_mset (current (collection sys) + 1) (mset [b + 1..current (collection sys)])"
        by (rule mset_upto_snoc)
      with m l s b cur ms i show ?thesis
        by (simp add: call_step_def ev Awaiting invariant_def findOneAndUpdate_upsert_new
            current_update)
    next
      case (Replied year c)
      have "seq c \<in> set (allocated_values ?cs)"
        using i Replied by (auto simp: allocated_values_def allocated_def in_set_conv_nth
            intro!: bexI [of _ "?cs ! i"])
      then have "seq c \<in># mset [b + 1..current (collection sys)]"
        using ms by (metis set_mset_mset)
      then have "0 \<le> seq c" using b by simp
      then have v: "sequence_value (formatBookingNumber year c) = seq c"
        by (rule sequence_value_format)
      have "mset (allocated_values (?cs[i := Returned (formatBookingNumber year c)])) =
          mset (allocated_values ?cs)"
        using upd [of "Returned (formatBookingNumber year c)"]
        by (simp add: Replied allocated_def v)
      moreover from this have
        "length (allocated_values (?cs[i := Returned (formatBookingNumber year c)])) =
          length (allocated_values ?cs)" by (metis size_mset)
      ultimately show ?thesis
        using b cur ms i by (simp add: call_step_def ev Replied invariant_def)
    next
      case (Returned s)
      with assms i show ?thesis by (simp add: call_step_def ev)
    next
      case (Failed e)
      with assms i show ?thesis by (simp add: call_step_def ev)
    qed
  qed
qed

lemma invariant_run: "invariant b sys \<Longrightarrow> invariant b (run schedule sys)"
  by (induction schedule arbitrary: sys) (simp_all add: invariant_call_step)

lemma allocated_values_Returned:
  "allocated_values (map Returned results) = map sequence_value results"
  by (induction results) (simp_all add: allocated_values_def allocated_def)

lemmas conc_eval = call_step_def initial_def findOneAndUpdate_def inc_field_def
  setDefaultsOnInsert_def counterSchema_defaults_def formatBookingNumber_def
  sequence_value_def sequence_text_def decimal_value_def Let_def

text \<open>
  Whatever the interleaving, \<open>N\<close> calls that have all returned hold exactly the
  \<open>N\<close> numbers after the value the counter stood at, each once (a counter that does
  not exist stands at 0).
\<close>

theorem interleaved_values:
  assumes "0 \<le> current coll"
    and "call_states (run schedule (initial coll N)) = map Returned results"
  shows "mset (map sequence_value results) = mset [current coll + 1..current coll + int N] \<and>
         distinct (map sequence_value results) \<and> length results = N"
proof -
  let ?sys = "run schedule (initial coll N)"
  have "length (call_states ?sys) = N" by (simp add: length_run initial_def)
  with assms(2) have n: "length results = N" by simp
  have "invariant (current coll) ?sys"
    using assms(1) by (intro invariant_run invariant_initial)
  then have "current (collection ?sys) =
      current coll + int (length (allocated_values (call_states ?sys)))"
    and "mset (allocated_values (call_states ?sys)) =
      mset [current coll + 1..current (collection ?sys)]"
    by (simp_all add: invariant_def)
  then have m: "mset (map sequence_value results) =
      mset [current coll + 1..current coll + int N]"
    using n by (simp add: assms(2) allocated_values_Returned)
  have "distinct [current coll + 1..current coll + int N]" by simp
  with m have "distinct (map sequence_value results)"
    by (metis mset_eq_imp_distinct_iff)
  with m n show ?thesis by simp
qed

theorem interleaved_values_witness:
  "0 \<le> current [''bookingNumber'' \<mapsto> \<lparr>counter_id = ''bookingNumber'', seq = 1000\<rparr>] \<and>
   call_states (run [(0, 2025), (1, 2025), (1, 2025), (0, 2025), (1, 2025), (0, 2025)]
      (initial [''bookingNumber'' \<mapsto> \<lparr>counter_id = ''bookingNumber'', seq = 1000\<rparr>] 2)) =
     map Returned [utf16 ''JY-2025-001002'', utf16 ''JY-2025-001001''] \<and>
   mset (map sequence_value [utf16 ''JY-2025-001002'', utf16 ''JY-2025-001001'']) =
     mset [1001..1002] \<and>
   distinct (map sequence_value [utf16 ''JY-2025-001002'', utf16 ''JY-2025-001001''])"
proof -
  let ?coll = "[''bookingNumber'' \<mapsto> \<lparr>counter_id = ''bookingNumber'', seq = 1000\<rparr>]"
  let ?schedule = "[(0, 2025), (1, 2025), (1, 2025), (0, 2025), (1, 2025), (0::nat, 2025::int)]"
  let ?results = "[utf16 ''JY-2025-001002'', utf16 ''JY-2025-001001'']"
  have h: "0 \<le> current ?coll" by (simp add: current_def)
  have c: "current ?coll = 1000" by (simp add: current_def)
  have r: "call_states (run ?schedule (initial ?coll 2)) = map Returned ?results"
    by (simp add: js_eval conc_eval)
  note t = interleaved_values [OF h r]
  from t c have m: "mset (map sequence_value ?results) = mset [1001..1002]" by simp
  from t have d: "distinct (map sequence_value ?results)" by blast
  from h r m d show ?thesis by (intro conjI)
qed

lemma progress_call_step:
  assumes "i < length (call_states sys)"
  shows "progress (call_states (call_step (j, clock) sys) ! i) =
       (if i = j then min 3 (progress (call_states sys ! i) + 1)
        else progress (call_states sys ! i))"
proof (cases "length (call_states sys) \<le> j")
  case True
  with assms show ?thesis by (simp add: call_step_def)
next
  case False
  then show ?thesis
    using assms
    by (cases "call_states sys ! j")
      (simp_all add: call_step_def findOneAndUpdate_upsert_new progress_def nth_list_update)
qed

lemma list_all_update: "list_all P xs \<Longrightarrow> P v \<Longrightarrow> list_all P (xs[i := v])"
  by (induction xs arbitrary: i) (auto split: nat.split)

lemma no_failure_call_step: "no_failure sys \<Longrightarrow> no_failure (call_step ev sys)"
  by (cases ev)
    (simp add: call_step_def findOneAndUpdate_upsert_new no_failure_def list_all_update
      split: call_state.split)

lemma no_failure_run: "no_failure sys \<Longrightarrow> no_failure (run schedule sys)"
  by (induction schedule arbitrary: sys) (simp_all add: no_failure_call_step)

lemma progress_run:
  "i < length (call_states sys) \<Longrightarrow>
     progress (call_states (run schedule sys) ! i) =
       min 3 (progress (call_states sys ! i) + steps_of i schedule)"
proof (induction schedule arbitrary: sys)
  case Nil
  then show ?case by (simp add: steps_of_def progress_def split: call_state.split)
next
  case (Cons ev schedule)
  obtain j clock where ev: "ev = (j, clock)" by (cases ev)
  have "i < length (call_states (call_step ev sys))"
    using Cons.prems by (simp add: length_call_step)
  from Cons.IH [OF this]
  have "progress (call_states (run (ev # schedule) sys) ! i) =
      min 3 (progress (call_states (call_step (j, clock) sys) ! i) + steps_of i schedule)"
    by (simp add: ev)
  also have "\<dots> = min 3 (progress (call_states sys ! i) + steps_of i (ev # schedule))"
    unfolding progress_call_step [OF Cons.prems] by (simp add: ev steps_of_def min_def)
  finally show ?case .
qed

text \<open>
  The calls do return: a schedule that gives every call its three steps, in whatever
  order and with whatever else between them, ends with every call returned.
\<close>

theorem schedule_completes:
  assumes "\<forall>i<N. 3 \<le> steps_of i schedule"
  shows "\<exists>results. call_states (run schedule (initial coll N)) = map Returned results"
proof -
  let ?cs = "call_states (run schedule (initial coll N))"
  have len: "length ?cs = N" by (simp add: length_run initial_def)
  have "no_failure (initial coll N)" by (simp add: no_failure_def initial_def list_all_length)
  then have nf: "no_failure (run schedule (initial coll N))" by (rule no_failure_run)
  have "\<exists>s. ?cs ! i = Returned s" if "i < N" for i
  proof -
    from that have "i < length (call_states (initial coll N))" by (simp add: initial_def)
    from progress_run [OF this, of schedule] assms that
    have "progress (?cs ! i) = 3" by (simp add: initial_def progress_def)
    moreover from nf that len have "\<forall>e. ?cs ! i \<noteq> Failed e"
      by (auto simp: no_failure_def list_all_length split: call_state.splits)
    ultimately show ?thesis by (cases "?cs ! i") (simp_all add: progress_def)
  qed
  then obtain f where f: "\<forall>i<N. ?cs ! i = Returned (f i)" by metis
  have "?cs = map Returned (map f [0..<N])"
    using len f by (intro nth_equalityI) simp_all
  then show ?thesis by blast
qed

theorem schedule_completes_witness:
  "3 \<le> steps_of 0 [(0, 2025), (1, 2025), (1, 2025), (0, 2025), (1, 2025), (0, 2025)] \<and>
   3 \<le> steps_of 1 [(0, 2025), (1, 2025), (1, 2025), (0, 2025), (1, 2025), (0, 2025)] \<and>
   (\<exists>results. call_states (run [(0, 2025), (1, 2025), (1, 2025), (0, 2025), (1, 2025), (0, 2025)]
      (initial Map.empty 2)) = map Returned results)"
proof -
  let ?schedule = "[(0, 2025), (1, 2025), (1, 2025), (0, 2025), (1, 2025), (0::nat, 2025::int)]"
  have a: "3 \<le> steps_of 0 ?schedule" and b: "3 \<le> steps_of 1 ?schedule"
    by (simp_all add: steps_of_def)
  have "i < 2 \<Longrightarrow> i = 0 \<or> i = 1" for i :: nat by auto
  with a b have h: "\<forall>i<2. 3 \<le> steps_of i ?schedule" by blast
  from a b schedule_completes [OF h] show ?thesis by (intro conjI)
qed

text \<open>
  Claim C2. The claim: \<open>N\<close> concurrent calls against a fresh counter return exactly
  the values 1001 to \<open>1000 + N\<close>, whatever the interleaving. With the library
  behaviour assumed in the counter model, two interleaved calls against a collection
  without the document return
  \<open>JY-2025-000002\<close> and \<open>JY-2025-000001\<close>: the values are 1 and 2, without a
  duplicate and without a gap, but they start behind 0 and not behind 1000.
\<close>

theorem concurrent_calls_on_missing_counter:
  "call_states (run [(0, 2025), (1, 2025), (1, 2025), (0, 2025), (1, 2025), (0, 2025)]
      (initial Map.empty 2)) =
     [Returned (utf16 ''JY-2025-000002''), Returned (utf16 ''JY-2025-000001'')] \<and>
   map sequence_value [utf16 ''JY-2025-000002'', utf16 ''JY-2025-000001''] = [2, 1]"
  by (simp add: js_eval conc_eval)

section \<open>Properties of the request validation\<close>

lemma replace_all_absent: "c \<notin> set s \<Longrightarrow> replace_all c r s = s"
  by (induction s) (auto simp: replace_all_def)

lemma replace_all_avoids:
  "x \<notin> set r \<Longrightarrow> x = c \<or> x \<notin> set s \<Longrightarrow> x \<notin> set (replace_all c r s)"
  by (induction s) (auto simp: replace_all_def)

lemma set_trim: "set (trim s) \<subseteq> set s"
proof -
  have "set (dropWhile isWhiteSpace (rev (dropWhile isWhiteSpace s)))
          \<subseteq> set (rev (dropWhile isWhiteSpace s))"
    by (auto dest: set_dropWhileD)
  also have "\<dots> \<subseteq> set s" by (auto dest: set_dropWhileD)
  finally show ?thesis by (simp add: trim_def)
qed

lemma dropWhile_keeps_last:
  "\<not> P x \<Longrightarrow> \<exists>w. dropWhile P (ys @ [x]) = w @ [x]"
  by (induction ys) auto

lemma dropWhile_rev_dropWhile:
  "dropWhile P (rev (dropWhile P (rev (dropWhile P s)))) = rev (dropWhile P (rev (dropWhile P s)))"
proof (cases "dropWhile P s")
  case Nil
  show ?thesis unfolding Nil by simp
next
  case (Cons x xs)
  then have nx: "\<not> P x" by (metis hd_dropWhile list.sel(1) list.distinct(1))
  from dropWhile_keeps_last [where P = P and x = x and ys = "rev xs", OF nx]
  obtain w where "dropWhile P (rev xs @ [x]) = w @ [x]" by blast
  then have "rev (dropWhile P (rev (x # xs))) = x # rev w" by simp
  with nx show ?thesis unfolding Cons by simp
qed

lemma trim_idem: "trim (trim s) = trim s"
proof -
  let ?t = "rev (dropWhile isWhiteSpace (rev (dropWhile isWhiteSpace s)))"
  have a: "dropWhile isWhiteSpace ?t = ?t" by (rule dropWhile_rev_dropWhile)
  have "dropWhile isWhiteSpace (rev ?t) = rev ?t"
    by simp
  with a show ?thesis by (simp add: trim_def)
qed

lemma specials_not_in_replacements:
  "set (utf16 ''&lt;'') \<inter> specials = {}" "set (utf16 ''&gt;'') \<inter> specials = {}"
  "set (utf16 ''&quot;'') \<inter> specials = {}" "set (utf16 ''&#x27;'') \<inter> specials = {}"
  "set (utf16 ''&#x2F;'') \<inter> specials = {}"
  by (simp_all add: utf16_def specials_def)

lemma escapeHtml_no_specials: "set (escapeHtml s) \<inter> specials = {}"
proof -
  have "x \<notin> set (escapeHtml s)" if "x \<in> specials" for x
  proof -
    from that specials_not_in_replacements
    have r: "x \<notin> set (utf16 ''&lt;'')" "x \<notin> set (utf16 ''&gt;'')" "x \<notin> set (utf16 ''&quot;'')"
      "x \<notin> set (utf16 ''&#x27;'')" "x \<notin> set (utf16 ''&#x2F;'')"
      by blast+
    let ?s1 = "replace_all 0x3C (utf16 ''&lt;'') s"
    let ?s2 = "replace_all 0x3E (utf16 ''&gt;'') ?s1"
    let ?s3 = "replace_all 0x22 (utf16 ''&quot;'') ?s2"
    let ?s4 = "replace_all 0x27 (utf16 ''&#x27;'') ?s3"
    from that consider "x = 0x3C" | "x = 0x3E" | "x = 0x22" | "x = 0x27" | "x = 0x2F"
      by (auto simp: specials_def)
    then show ?thesis
    proof cases
      case 1
      have "x \<notin> set ?s1" using r(1) 1 by (intro replace_all_avoids) simp_all
      then have "x \<notin> set ?s2" using r(2) by (intro replace_all_avoids) simp_all
      then have "x \<notin> set ?s3" using r(3) by (intro replace_all_avoids) simp_all
      then have "x \<notin> set ?s4" using r(4) by (intro replace_all_avoids) simp_all
      then show ?thesis unfolding escapeHtml_def using r(5) by (intro replace_all_avoids) simp_all
    next
      case 2
      have "x \<notin> set ?s2" using r(2) 2 by (intro replace_all_avoids) simp_all
      then have "x \<notin> set ?s3" using r(3) by (intro replace_all_avoids) simp_all
      then have "x \<notin> set ?s4" using r(4) by (intro replace_all_avoids) simp_all
      then show ?thesis unfolding escapeHtml_def using r(5) by (intro replace_all_avoids) simp_all
    next
      case 3
      have "x \<notin> set ?s3" using r(3) 3 by (intro replace_all_avoids) simp_all
      then have "x \<notin> set ?s4" using r(4) by (intro replace_all_avoids) simp_all
      then show ?thesis unfolding escapeHtml_def using r(5) by (intro replace_all_avoids) simp_all
    next
      case 4
      have "x \<notin> set ?s4" using r(4) 4 by (intro replace_all_avoids) simp_all
      then show ?thesis unfolding escapeHtml_def using r(5) by (intro replace_all_avoids) simp_all
    next
      case 5
      show ?thesis unfolding escapeHtml_def using r(5) 5 by (intro replace_all_avoids) simp_all
    qed
  qed
  then show ?thesis by blast
qed

lemma escapeHtml_fixed: "set s \<inter> specials = {} \<Longrightarrow> escapeHtml s = s"
  by (simp add: escapeHtml_def specials_def replace_all_absent)

lemma sanitizeString_eq: "sanitizeString s = trim (escapeHtml s)"
  by (simp add: sanitizeString_def escapeHtml_def)

text \<open>
  Claim C9. \<open>sanitizeString\<close> is idempotent: its result holds none of the five
  characters it replaces, so a second pass replaces nothing, and trimming what is trimmed
  changes nothing.
\<close>

theorem sanitizeString_idempotent:
  "sanitizeString (sanitizeString s) = sanitizeString s \<and>
   set (sanitizeString s) \<inter> {0x3C, 0x3E, 0x22, 0x27, 0x2F} = {} \<and>
   trim (trim s) = trim s"
proof -
  have n: "set (sanitizeString s) \<inter> specials = {}"
    using set_trim [of "escapeHtml s"] escapeHtml_no_specials [of s]
    by (auto simp: sanitizeString_eq)
  then have "escapeHtml (sanitizeString s) = sanitizeString s" by (rule escapeHtml_fixed)
  then have "sanitizeString (sanitizeString s) = trim (trim (escapeHtml s))"
    by (simp add: sanitizeString_eq)
  then have "sanitizeString (sanitizeString s) = sanitizeString s"
    by (simp add: trim_idem sanitizeString_eq)
  with n show ?thesis by (simp add: trim_idem specials_def)
qed

lemma sanitizeString_example:
  "sanitizeString (utf16 '' <b>'' @ [0x22, 0x27] @ utf16 ''</b>  '') =
     utf16 ''&lt;b&gt;&quot;&#x27;&lt;&#x2F;b&gt;''"
  by (simp add: sanitizeString_def replace_all_def trim_def utf16_def isWhiteSpace_def)

lemmas web_eval = parseInt_def or_else_def page_transform_def limit_transform_def
  paginationQuerySchema_def zod_string_optional_def isWhiteSpace_def isDigit_def
  decimal_value_def utf16_def Let_def

lemma parseInt_empty: "parseInt [] = None"
  by (simp add: parseInt_def)

lemma parseInt_one: "parseInt (utf16 ''1'') = Some 1"
  by (simp add: web_eval)

lemma parseInt_ten: "parseInt (utf16 ''10'') = Some 10"
  by (simp add: web_eval)

text \<open>
  Claim C10. Whatever \<open>paginationQuerySchema\<close> accepts, the page of the result is at
  least 1 and its limit lies between 1 and 100: a page that is absent, does not parse or
  parses below 1 gives 1, such a limit gives 10, and a limit above 100 gives 100.
\<close>

theorem pagination_bounds:
  assumes "paginationQuerySchema q = Inr r"
  shows "1 \<le> page r \<and> 1 \<le> limit r \<and> limit r \<le> 100 \<and>
         (page_input q = None \<longrightarrow> page r = 1) \<and>
         (limit_input q = None \<longrightarrow> limit r = 10) \<and>
         (\<forall>s. page_input q = Some (QString s) \<longrightarrow>
            page r = (case parseInt s of None \<Rightarrow> 1 | Some n \<Rightarrow> if n < 1 then 1 else n)) \<and>
         (\<forall>s. limit_input q = Some (QString s) \<longrightarrow>
            limit r = (case parseInt s of None \<Rightarrow> 10 | Some n \<Rightarrow> if n < 1 then 10 else min n 100))"
proof -
  from assms obtain p l where
    p: "zod_string_optional ''page'' (page_input q) = Inr p" and
    l: "zod_string_optional ''limit'' (limit_input q) = Inr l" and
    r: "r = \<lparr>page = page_transform p, limit = limit_transform l\<rparr>"
    by (auto simp: paginationQuerySchema_def split: sum.splits)
  have pb: "1 \<le> page_transform p"
    by (simp add: page_transform_def split: option.split)
  have lb: "1 \<le> limit_transform l \<and> limit_transform l \<le> 100"
    by (simp add: limit_transform_def split: option.split)
  have pn: "page_input q = None \<Longrightarrow> page_transform p = 1"
    using p by (simp add: zod_string_optional_def page_transform_def or_else_def parseInt_one)
  have ln: "limit_input q = None \<Longrightarrow> limit_transform l = 10"
    using l by (simp add: zod_string_optional_def limit_transform_def or_else_def parseInt_ten)
  have ps: "page_transform p = (case parseInt s of None \<Rightarrow> 1 | Some n \<Rightarrow> if n < 1 then 1 else n)"
    if "page_input q = Some (QString s)" for s
    using p that
    by (auto simp: zod_string_optional_def page_transform_def or_else_def parseInt_one
        parseInt_empty)
  have ls: "limit_transform l =
      (case parseInt s of None \<Rightarrow> 10 | Some n \<Rightarrow> if n < 1 then 10 else min n 100)"
    if "limit_input q = Some (QString s)" for s
    using l that
    by (auto simp: zod_string_optional_def limit_transform_def or_else_def parseInt_ten
        parseInt_empty)
  from pb lb pn ln ps ls show ?thesis by (simp add: r)
qed

text \<open>The page \<open>abc\<close> with the limit \<open>250\<close> gives page 1 and limit 100; no page
  with the limit \<open>0\<close> gives page 1 and limit 10.\<close>

theorem pagination_bounds_witness:
  "paginationQuerySchema \<lparr>page_input = Some (QString (utf16 ''abc'')),
       limit_input = Some (QString (utf16 ''250''))\<rparr> = Inr \<lparr>page = 1, limit = 100\<rparr> \<and>
   paginationQuerySchema \<lparr>page_input = None, limit_input = Some (QString (utf16 ''0''))\<rparr> =
     Inr \<lparr>page = 1, limit = 10\<rparr> \<and>
   1 \<le> page \<lparr>page = 1, limit = 100\<rparr> \<and> 1 \<le> limit \<lparr>page = 1, limit = 100\<rparr> \<and>
   limit \<lparr>page = 1, limit = 100\<rparr> \<le> 100 \<and>
   page \<lparr>page = 1, limit = 100\<rparr> = (case parseInt (utf16 ''abc'') of None \<Rightarrow> 1
      | Some n \<Rightarrow> if n < 1 then 1 else n) \<and>
   limit \<lparr>page = 1, limit = 100\<rparr> = (case parseInt (utf16 ''250'') of None \<Rightarrow> 10
      | Some n \<Rightarrow> if n < 1 then 10 else min n 100)"
proof -
  let ?q = "\<lparr>page_input = Some (QString (utf16 ''abc'')),
       limit_input = Some (QString (utf16 ''250''))\<rparr>"
  let ?r = "\<lparr>page = 1, limit = 100\<rparr>"
  have h: "paginationQuerySchema ?q = Inr ?r"
    by (simp add: web_eval)
  have h2: "paginationQuerySchema \<lparr>page_input = None, limit_input = Some (QString (utf16 ''0''))\<rparr> =
     Inr \<lparr>page = 1, limit = 10\<rparr>"
    by (simp add: web_eval)
  note t = pagination_bounds [OF h]
  from t have a: "1 \<le> page ?r" "1 \<le> limit ?r" "limit ?r \<le> 100" by blast+
  from t have b: "page ?r = (case parseInt (utf16 ''abc'') of None \<Rightarrow> 1
      | Some n \<Rightarrow> if n < 1 then 1 else n)" by simp
  from t have c: "limit ?r = (case parseInt (utf16 ''250'') of None \<Rightarrow> 10
      | Some n \<Rightarrow> if n < 1 then 10 else min n 100)" by simp
  from h h2 a b c show ?thesis by (intro conjI)
qed

text \<open>The schema accepts a query exactly when each of the two values is absent or a string.\<close>

lemma paginationQuerySchema_accepts:
  "(\<exists>r. paginationQuerySchema q = Inr r) \<longleftrightarrow>
     page_input q \<noteq> Some QOther \<and> limit_input q \<noteq> Some QOther"
  by (auto simp: paginationQuerySchema_def zod_string_optional_def
      split: option.splits query_value.splits sum.splits)

end
